theory Spec2Isabelle
  imports Complex_Main "HOL-Library.Word"
begin

unbundle bit_operations_syntax

section \<open>Buffers and strings\<close>

text \<open>
  A Node \<open>Buffer\<close> is a list of bytes. A JavaScript string is represented by the bytes
  of its UTF-8 encoding, one \<open>char\<close> per byte, so \<open>Buffer.from(str)\<close> and
  \<open>buf.toString('utf8', ...)\<close> copy bytes between the two types. For ASCII text, which
  is what the addresses and type codes of this program are, a \<open>char\<close> is a character;
  bytes that are not valid UTF-8 stay as they are, where Node would substitute U+FFFD.
\<close>

type_synonym byte = "8 word"

type_synonym buffer = "byte list"

definition utf8_bytes :: "string \<Rightarrow> buffer" where
  "utf8_bytes s = map of_char s"

definition utf8_string :: "buffer \<Rightarrow> string" where
  "utf8_string bs = map (\<lambda>b. char_of (unat b)) bs"

text \<open>
  \<open>buf.indexOf(value, byteOffset)\<close> for a byte value: a negative offset counts from the
  end of the buffer (and from the start when it reaches before it); an offset at or past
  the end finds nothing. The result is the first position at or after the start that
  holds the value, \<open>None\<close> for JavaScript's \<open>-1\<close>.
\<close>

definition indexOfByte :: "buffer \<Rightarrow> byte \<Rightarrow> int \<Rightarrow> nat option" where
  "indexOfByte buf v byteOffset =
     (let len = int (length buf);
          start = (if byteOffset < 0
                   then (if byteOffset + len \<ge> 0 then byteOffset + len else 0)
                   else byteOffset);
          rest = drop (nat start) buf;
          n = length (takeWhile (\<lambda>b. b \<noteq> v) rest)
      in if n < length rest then Some (nat start + n) else None)"

text \<open>
  \<open>buf.toString('utf8', start, end)\<close>: a start at or below zero is zero, a start at or
  past the length gives the empty string, an end past the length is the length, and an
  end at or before the start gives the empty string.
\<close>

definition toString :: "buffer \<Rightarrow> int \<Rightarrow> int \<Rightarrow> string" where
  "toString buf start end =
     (let len = int (length buf) in
      if 0 < start \<and> len \<le> start then []
      else
        let s = (if start \<le> 0 then 0 else start);
            e = (if len < end then len else end)
        in if e \<le> s then [] else utf8_string (take (nat (e - s)) (drop (nat s) buf)))"

text \<open>
  \<open>buf.slice(start, end)\<close>: each index is adjusted as Node's \<open>adjustOffset\<close> does
  (a negative index counts from the end, and the result is kept within the buffer).
\<close>

definition adjustOffset :: "int \<Rightarrow> int \<Rightarrow> int" where
  "adjustOffset offset len =
     (if offset = 0 then 0
      else if offset < 0 then (if 0 < offset + len then offset + len else 0)
      else if offset < len then offset
      else len)"

definition slice :: "buffer \<Rightarrow> int \<Rightarrow> int \<Rightarrow> buffer" where
  "slice buf start end =
     (let len = int (length buf);
          s = adjustOffset start len;
          e = adjustOffset end len
      in if s < e then take (nat (e - s)) (drop (nat s) buf) else [])"

text \<open>Four bytes in network order, and the 32-bit pattern they hold.\<close>

definition be32 :: "32 word \<Rightarrow> buffer" where
  "be32 w = [ucast (drop_bit 24 w), ucast (drop_bit 16 w), ucast (drop_bit 8 w), ucast w]"

definition from_be32 :: "byte \<Rightarrow> byte \<Rightarrow> byte \<Rightarrow> byte \<Rightarrow> 32 word" where
  "from_be32 a b c d =
     push_bit 24 (ucast a) OR push_bit 16 (ucast b) OR push_bit 8 (ucast c) OR ucast d"

datatype js_error = RangeError

text \<open>
  \<open>buf.readFloatBE(offset)\<close> and \<open>buf.readInt32BE(offset)\<close> throw a RangeError when
  the four bytes are not all inside the buffer; otherwise they read the pattern.
\<close>

definition read32BE :: "buffer \<Rightarrow> int \<Rightarrow> js_error + 32 word" where
  "read32BE buf offset =
     (if offset < 0 \<or> int (length buf) < offset + 4 then Inl RangeError
      else let k = nat offset in
        Inr (from_be32 (buf ! k) (buf ! (k + 1)) (buf ! (k + 2)) (buf ! (k + 3))))"

definition readFloatBE :: "buffer \<Rightarrow> int \<Rightarrow> js_error + 32 word" where
  "readFloatBE buf offset = read32BE buf offset"

definition readInt32BE :: "buffer \<Rightarrow> int \<Rightarrow> js_error + 32 word" where
  "readInt32BE buf offset = read32BE buf offset"

section \<open>OSC codec (server.js)\<close>

text \<open>
  The values the codec handles. A number that travels as an OSC float is given by its
  IEEE-754 binary32 pattern and one that travels as an OSC integer by its 32-bit two's
  complement pattern; rounding a double to binary32 and the payload of a NaN are not
  part of the model.
\<close>

datatype jsval =
    Float32 "32 word"
  | Int32 "32 word"
  | Str string
  | Buf buffer
  | Undefined

definition pad4 :: "nat \<Rightarrow> nat" where
  "pad4 n = (4 - (n mod 4)) mod 4"

definition writePaddedString :: "string \<Rightarrow> buffer" where
  "writePaddedString str =
     (let s = utf8_bytes (str @ [CHR 0x00]);
          pad = pad4 (length s)
      in if pad = 0 then s else s @ replicate pad 0)"

definition floatToBuffer :: "32 word \<Rightarrow> buffer" where
  "floatToBuffer f = be32 f"

definition intToBuffer :: "32 word \<Rightarrow> buffer" where
  "intToBuffer i = be32 i"

text \<open>
  \<open>Number(a)\<close> as \<open>writeFloatBE\<close> and \<open>writeInt32BE\<close> store it, and \<open>String(a)\<close>.
  They are defined for a value of the kind the type code asks for; \<open>None\<close> marks a
  conversion that is decided by number formatting, parsing or rounding, which the model
  does not cover.
\<close>

fun Number_f32 :: "jsval \<Rightarrow> 32 word option" where
  "Number_f32 (Float32 w) = Some w"
| "Number_f32 _ = None"

fun Number_i32 :: "jsval \<Rightarrow> 32 word option" where
  "Number_i32 (Int32 w) = Some w"
| "Number_i32 _ = None"

fun String_js :: "jsval \<Rightarrow> string option" where
  "String_js (Str s) = Some s"
| "String_js _ = None"

text \<open>\<open>args[i]\<close>: reading past the end of a JavaScript array gives \<open>undefined\<close>.\<close>

definition arg_at :: "jsval list \<Rightarrow> nat \<Rightarrow> jsval" where
  "arg_at args i = (if i < length args then args ! i else Undefined)"

text \<open>
  The body of the loop of \<open>buildOscMessage\<close> for one type code \<open>t\<close> and its argument
  \<open>a\<close>: the buffers pushed onto \<open>argBufs\<close> (none for \<open>T\<close> and \<open>F\<close>).
\<close>

definition pushArg :: "char \<Rightarrow> jsval \<Rightarrow> buffer list option" where
  "pushArg t a =
     (if t = CHR ''f'' then map_option (\<lambda>w. [floatToBuffer w]) (Number_f32 a)
      else if t = CHR ''i'' then map_option (\<lambda>w. [intToBuffer w]) (Number_i32 a)
      else if t = CHR ''s'' then map_option (\<lambda>s. [writePaddedString s]) (String_js a)
      else if t = CHR ''T'' \<or> t = CHR ''F'' then Some []
      else map_option (\<lambda>s. [writePaddedString s]) (String_js a))"

text \<open>The loop \<open>for (let i = 0; i < types.length; i++)\<close>, from index \<open>i\<close> on.\<close>

fun argBufsFrom :: "nat \<Rightarrow> char list \<Rightarrow> jsval list \<Rightarrow> buffer list option" where
  "argBufsFrom i [] args = Some []"
| "argBufsFrom i (t # ts) args =
     (case pushArg t (arg_at args i) of
        None \<Rightarrow> None
      | Some bs \<Rightarrow> map_option (\<lambda>rest. bs @ rest) (argBufsFrom (Suc i) ts args))"

definition buildOscMessage :: "string \<Rightarrow> char list \<Rightarrow> jsval list \<Rightarrow> buffer option" where
  "buildOscMessage address types args =
     (let addressBuf = writePaddedString address;
          typeTag = CHR '','' # types;
          typeBuf = writePaddedString typeTag
      in map_option (\<lambda>argBufs. concat (addressBuf # typeBuf # argBufs))
           (argBufsFrom 0 types args))"

text \<open>\<open>Math.ceil(offset / 4) * 4\<close>.\<close>

definition ceil4 :: "int \<Rightarrow> int" where
  "ceil4 offset = - ((- offset) div 4) * 4"

text \<open>
  The argument loop of \<open>parseOscMessage\<close>,
  \<open>for (let i = 0; i < types.length && offset < buffer.length; i++)\<close>, on the types
  still to read. A \<open>break\<close> and the end of the loop return the arguments read so far;
  an exception of a read leaves the function (\<open>Inl\<close>).
\<close>

fun parseArgs :: "buffer \<Rightarrow> string \<Rightarrow> int \<Rightarrow> jsval list \<Rightarrow> js_error + jsval list" where
  "parseArgs buffer [] offset args = Inr args"
| "parseArgs buffer (type # rest) offset args =
     (if \<not> offset < int (length buffer) then Inr args
      else if type = CHR ''f'' then
        (if offset + 4 > int (length buffer) then Inr args
         else case readFloatBE buffer offset of
                Inl e \<Rightarrow> Inl e
              | Inr w \<Rightarrow> parseArgs buffer rest (offset + 4) (args @ [Float32 w]))
      else if type = CHR ''i'' then
        (if offset + 4 > int (length buffer) then Inr args
         else case readInt32BE buffer offset of
                Inl e \<Rightarrow> Inl e
              | Inr w \<Rightarrow> parseArgs buffer rest (offset + 4) (args @ [Int32 w]))
      else if type = CHR ''s'' then
        (case indexOfByte buffer 0 offset of
           None \<Rightarrow> Inr args
         | Some strEnd \<Rightarrow>
             parseArgs buffer rest (ceil4 (int strEnd + 1))
               (args @ [Str (toString buffer offset (int strEnd))]))
      else if type = CHR ''b'' then
        (if offset + 4 > int (length buffer) then Inr args
         else case readInt32BE buffer offset of
                Inl e \<Rightarrow> Inl e
              | Inr w \<Rightarrow>
                  (let blobSize = sint w;
                       offset1 = offset + 4
                   in if offset1 + blobSize > int (length buffer) then Inr args
                      else parseArgs buffer rest (ceil4 (offset1 + blobSize))
                             (args @ [Buf (slice buffer offset1 (offset1 + blobSize))])))
      else parseArgs buffer rest offset args)"

text \<open>The object \<open>{ address, types, args }\<close> that \<open>parseOscMessage\<close> returns.\<close>

record osc_message =
  address :: string
  types :: string
  args :: "jsval list"

text \<open>
  \<open>parseOscMessage\<close>: \<open>Inr None\<close> is the return value \<open>null\<close>, \<open>Inr (Some m)\<close> a
  parsed message and \<open>Inl e\<close> an exception thrown out of the function.
\<close>

definition parseOscMessage :: "buffer \<Rightarrow> js_error + osc_message option" where
  "parseOscMessage buffer =
     (case indexOfByte buffer 0 0 of
        None \<Rightarrow> Inr None
      | Some addressEnd \<Rightarrow>
          (let address = toString buffer 0 (int addressEnd);
               offset = ceil4 (int addressEnd + 1)
           in if offset \<ge> int (length buffer)
              then Inr (Some \<lparr>address = address, types = [], args = []\<rparr>)
              else case indexOfByte buffer 0 offset of
                     None \<Rightarrow> Inr None
                   | Some typeTagEnd \<Rightarrow>
                       (let typeTag = toString buffer offset (int typeTagEnd);
                            offset2 = ceil4 (int typeTagEnd + 1);
                            types = drop 1 typeTag
                        in case parseArgs buffer types offset2 [] of
                             Inl e \<Rightarrow> Inl e
                           | Inr vs \<Rightarrow>
                               Inr (Some \<lparr>address = address, types = types, args = vs\<rparr>))))"

subsection \<open>Arguments that fit their type codes\<close>





subsection \<open>Padding\<close>

lemma pad4_sum: "(n + pad4 n) mod 4 = 0"
proof -
  define r where "r = n mod 4"
  have "r < 4" by (simp add: r_def)
  then consider "r = 0" | "r = 1" | "r = 2" | "r = 3"
    by linarith
  then have r: "(r + (4 - r) mod 4) mod 4 = 0"
    by cases simp_all
  have "(n + pad4 n) mod 4 = (n mod 4 + pad4 n) mod 4"
    by (rule mod_add_left_eq [symmetric])
  also have "\<dots> = (r + (4 - r) mod 4) mod 4"
    by (simp only: pad4_def r_def)
  finally show ?thesis
    by (simp only: r)
qed

lemma length_writePaddedString:
  "length (writePaddedString str) = Suc (length str) + pad4 (Suc (length str))"
  by (simp add: writePaddedString_def utf8_bytes_def Let_def)

lemma writePaddedString_dvd: "4 dvd length (writePaddedString str)"
  using pad4_sum [of "Suc (length str)"]
  by (simp add: length_writePaddedString mod_eq_0_iff_dvd)

lemma buildOscMessage_blocks:
  "buildOscMessage addr tys vals = Some msg \<Longrightarrow>
   \<exists>rest. msg = writePaddedString addr @ writePaddedString (CHR '','' # tys) @ rest"
  by (auto simp add: buildOscMessage_def Let_def)

text \<open>
  Claim C9. For every address string and every type list, the address block (address
  text, NUL terminator and padding) and the type-tag block (comma, type characters, NUL
  terminator and padding) that \<open>buildOscMessage\<close> writes each have a length that is
  a multiple of 4 bytes; the two blocks are the first bytes of every encoded message, in
  that order.
\<close>

theorem osc_padding:
  "4 dvd length (writePaddedString addr) \<and>
   4 dvd length (writePaddedString (CHR '','' # tys)) \<and>
   (buildOscMessage addr tys vals = Some msg \<longrightarrow>
      take (length (writePaddedString addr)) msg = writePaddedString addr \<and>
      take (length (writePaddedString (CHR '','' # tys)))
        (drop (length (writePaddedString addr)) msg) = writePaddedString (CHR '','' # tys))"
  using buildOscMessage_blocks [of addr tys vals msg]
  by (auto simp add: writePaddedString_dvd)

theorem osc_padding_witness:
  "buildOscMessage ''/a'' ''fT'' [Float32 0x42340000] =
     Some [47, 97, 0, 0, 44, 102, 84, 0, 66, 52, 0, 0] \<and>
   writePaddedString ''/a'' = [47, 97, 0, 0] \<and>
   writePaddedString '',fT'' = [44, 102, 84, 0] \<and>
   4 dvd length (writePaddedString ''/a'') \<and> 4 dvd length (writePaddedString '',fT'')"
  using osc_padding [of "''/a''" "''fT''" "[Float32 0x42340000]"
      "[47, 97, 0, 0, 44, 102, 84, 0, 66, 52, 0, 0]"]
  by (simp add: buildOscMessage_def writePaddedString_def utf8_bytes_def pad4_def
      pushArg_def arg_at_def floatToBuffer_def be32_def)

subsection \<open>Reading back what the encoder wrote\<close>








lemma takeWhile_short: "length (takeWhile (\<lambda>b. b \<noteq> v) xs) < length xs \<longleftrightarrow> v \<in> set xs"
  by (induction xs) auto

lemma indexOfByte_None_iff:
  "0 \<le> off \<Longrightarrow> indexOfByte buf v off = None \<longleftrightarrow> v \<notin> set (drop (nat off) buf)"
  using takeWhile_short [of v "drop (nat off) buf"]
  by (auto simp add: indexOfByte_def Let_def)

















subsection \<open>Outcomes of decoding\<close>

text \<open>
  \<open>parseOscMessage\<close> returns \<open>null\<close> exactly when no NUL byte is found for the address,
  or when bytes follow the padded address and no NUL byte is found among them. A
  datagram that ends with its address block is a message without arguments.
\<close>

lemma parseOscMessage_null_iff:
  "parseOscMessage dg = Inr None \<longleftrightarrow>
     (indexOfByte dg 0 0 = None \<or>
      (\<exists>addressEnd. indexOfByte dg 0 0 = Some addressEnd \<and>
         ceil4 (int addressEnd + 1) < int (length dg) \<and>
         indexOfByte dg 0 (ceil4 (int addressEnd + 1)) = None))"
  by (auto simp add: parseOscMessage_def Let_def split: option.splits sum.splits)

text \<open>
  Claim C4. The claim says that every datagram whose address and type-tag blocks are
  NUL-terminated decodes to a message. The datagram below has the address \<open>/a\<close> and the
  type tag \<open>,bf\<close>, both terminated (at positions 2 and 7), and a blob length of -100:
  the loop accepts the negative length, moves the offset to -88, and the next read
  throws a RangeError, so the function returns neither a message nor \<open>null\<close>.
\<close>

theorem parseOscMessage_negative_blob_throws:
  "indexOfByte [47, 97, 0, 0, 44, 98, 102, 0, 255, 255, 255, 156] 0 0 = Some 2 \<and>
   indexOfByte [47, 97, 0, 0, 44, 98, 102, 0, 255, 255, 255, 156] 0 4 = Some 7 \<and>
   readInt32BE [47, 97, 0, 0, 44, 98, 102, 0, 255, 255, 255, 156] 8 = Inr (word_of_int (- 100)) \<and>
   parseOscMessage [47, 97, 0, 0, 44, 98, 102, 0, 255, 255, 255, 156] = Inl RangeError"
  by code_simp



section \<open>Frame demuxer (spout-bridge.js)\<close>

text \<open>The JPEG start-of-image and end-of-image markers the stream parser looks for.\<close>

definition jpegSOI :: buffer where
  "jpegSOI = [0xFF, 0xD8]"

definition jpegEOI :: buffer where
  "jpegEOI = [0xFF, 0xD9]"

text \<open>
  \<open>buf.indexOf(needle, byteOffset)\<close> for a non-empty buffer \<open>needle\<close> and an offset that
  is not negative: the first position at or after the offset where the needle starts,
  \<open>None\<close> for \<open>-1\<close>.
\<close>

fun firstAt :: "buffer \<Rightarrow> buffer \<Rightarrow> nat option" where
  "firstAt needle [] = None"
| "firstAt needle (x # xs) =
     (if take (length needle) (x # xs) = needle then Some 0
      else map_option Suc (firstAt needle xs))"

definition indexOfBuf :: "buffer \<Rightarrow> buffer \<Rightarrow> nat \<Rightarrow> nat option" where
  "indexOfBuf buf needle byteOffset =
     map_option (\<lambda>i. byteOffset + i) (firstAt needle (drop byteOffset buf))"

lemma indexOfBuf_ge: "indexOfBuf buf needle byteOffset = Some i \<Longrightarrow> byteOffset \<le> i"
  by (auto simp add: indexOfBuf_def)

text \<open>
  The \<open>while (startIndex < buffer.length)\<close> loop of the stdout \<open>data\<close> handler. Every
  pass that finds a frame assigns it to \<open>currentFrameBuffer\<close> and counts it; the
  function collects these frames in order, and returns them with the value of
  \<open>buffer\<close> and of \<open>startIndex\<close> when the loop is left.
\<close>

function demuxLoop :: "buffer \<Rightarrow> nat \<Rightarrow> buffer list \<Rightarrow> buffer list \<times> buffer \<times> nat" where
  "demuxLoop buf startIndex frames =
     (if startIndex < length buf then
        (case indexOfBuf buf jpegSOI startIndex of
           None \<Rightarrow> (frames, slice buf (int startIndex) (int (length buf)), startIndex)
         | Some jpegStart \<Rightarrow>
             (case indexOfBuf buf jpegEOI (jpegStart + 2) of
                None \<Rightarrow> (frames, slice buf (int jpegStart) (int (length buf)), startIndex)
              | Some jpegEnd \<Rightarrow>
                  (let frameEnd = jpegEnd + 2;
                       frame = slice buf (int jpegStart) (int frameEnd)
                   in demuxLoop buf frameEnd (frames @ [frame]))))
      else (frames, buf, startIndex))"
  by pat_completeness auto
termination
proof (relation "measure (\<lambda>(buf, startIndex, frames). length buf - startIndex)")
  show "wf (measure (\<lambda>(buf, startIndex, frames). length buf - startIndex))"
    by simp
next
  fix buf :: buffer and startIndex :: nat and frames :: "buffer list"
    and jpegStart jpegEnd frameEnd :: nat and frame :: buffer
  assume "startIndex < length buf"
    and "indexOfBuf buf jpegSOI startIndex = Some jpegStart"
    and "indexOfBuf buf jpegEOI (jpegStart + 2) = Some jpegEnd"
    and "frameEnd = jpegEnd + 2"
  then have "startIndex < frameEnd" "startIndex < length buf"
    using indexOfBuf_ge [of buf jpegSOI startIndex jpegStart]
      indexOfBuf_ge [of buf jpegEOI "jpegStart + 2" jpegEnd]
    by simp_all
  then show "((buf, frameEnd, frames @ [frame]), (buf, startIndex, frames))
      \<in> measure (\<lambda>(buf, startIndex, frames). length buf - startIndex)"
    by simp
qed

text \<open>
  The state of one capture: the closure variables \<open>buffer\<close> and \<open>frameCount\<close> of the
  handler and the module variable \<open>currentFrameBuffer\<close> (\<open>None\<close> for \<open>null\<close>).
\<close>

record capture =
  buffer :: buffer
  frameCount :: nat
  currentFrameBuffer :: "buffer option"

definition initialCapture :: capture where
  "initialCapture = \<lparr>buffer = [], frameCount = 0, currentFrameBuffer = None\<rparr>"

text \<open>
  The stdout \<open>data\<close> handler: append the chunk, run the loop, then keep
  \<open>buffer.slice(startIndex)\<close> when \<open>startIndex < buffer.length\<close> and an empty buffer
  otherwise. It returns the frames of this chunk and the new state.
\<close>

definition onData :: "capture \<Rightarrow> buffer \<Rightarrow> buffer list \<times> capture" where
  "onData st chunk =
     (let buf0 = buffer st @ chunk;
          (frames, buf1, startIndex) = demuxLoop buf0 0 [];
          buf2 = (if startIndex < length buf1
                  then slice buf1 (int startIndex) (int (length buf1))
                  else [])
      in (frames,
          st\<lparr>buffer := buf2,
             frameCount := frameCount st + length frames,
             currentFrameBuffer :=
               (if frames = [] then currentFrameBuffer st else Some (last frames))\<rparr>))"

text \<open>A sequence of chunks, one \<open>data\<close> event each; the frames of all of them in order.\<close>

fun feed :: "capture \<Rightarrow> buffer list \<Rightarrow> buffer list \<times> capture" where
  "feed st [] = ([], st)"
| "feed st (chunk # chunks) =
     (let (fs, st1) = onData st chunk;
          (gs, st2) = feed st1 chunks
      in (fs @ gs, st2))"

subsection \<open>Searching and slicing\<close>

declare demuxLoop.simps [simp del]

lemma slice_nat:
  "s \<le> e \<Longrightarrow> e \<le> length buf \<Longrightarrow> slice buf (int s) (int e) = take (e - s) (drop s buf)"
  by (auto simp add: slice_def adjustOffset_def Let_def nat_diff_distrib')

lemma slice_to_end: "s \<le> length buf \<Longrightarrow> slice buf (int s) (int (length buf)) = drop s buf"
  by (simp add: slice_nat)

lemma firstAt_Some:
  "firstAt needle xs = Some i \<Longrightarrow>
     i < length xs \<and> take (length needle) (drop i xs) = needle \<and>
     (\<forall>j<i. take (length needle) (drop j xs) \<noteq> needle)"
proof (induction xs arbitrary: i)
  case Nil
  then show ?case by simp
next
  case (Cons x xs)
  show ?case
  proof (cases "take (length needle) (x # xs) = needle")
    case True
    then show ?thesis using Cons.prems by simp
  next
    case False
    then obtain k where k: "firstAt needle xs = Some k" "i = Suc k"
      using Cons.prems by auto
    from Cons.IH [OF k(1)] have IH: "k < length xs" "take (length needle) (drop k xs) = needle"
      "\<forall>j<k. take (length needle) (drop j xs) \<noteq> needle"
      by simp_all
    have "take (length needle) (drop j (x # xs)) \<noteq> needle" if "j < i" for j
    proof (cases j)
      case 0
      then show ?thesis using False by simp
    next
      case (Suc j')
      then show ?thesis using IH(3) that k(2) by simp
    qed
    then show ?thesis using IH k(2) by simp
  qed
qed

lemma firstAt_None:
  "firstAt needle xs = None \<Longrightarrow> j < length xs \<Longrightarrow> take (length needle) (drop j xs) \<noteq> needle"
proof (induction xs arbitrary: j)
  case Nil
  then show ?case by simp
next
  case (Cons x xs)
  then show ?case
    by (cases j) (auto split: if_splits)
qed

lemma firstAt_first:
  "i < length xs \<Longrightarrow> take (length needle) (drop i xs) = needle \<Longrightarrow>
   (\<forall>j<i. take (length needle) (drop j xs) \<noteq> needle) \<Longrightarrow> firstAt needle xs = Some i"
proof -
  assume a: "i < length xs" "take (length needle) (drop i xs) = needle"
    "\<forall>j<i. take (length needle) (drop j xs) \<noteq> needle"
  show ?thesis
  proof (cases "firstAt needle xs")
    case None
    then show ?thesis using firstAt_None [OF None a(1)] a(2) by simp
  next
    case (Some k)
    from firstAt_Some [OF Some] have k: "k < length xs" "take (length needle) (drop k xs) = needle"
      "\<forall>j<k. take (length needle) (drop j xs) \<noteq> needle" by simp_all
    have "\<not> k < i" using a(3) k(2) by blast
    moreover have "\<not> i < k" using k(3) a(2) by blast
    ultimately show ?thesis using Some by simp
  qed
qed

lemma indexOfBuf_Some:
  assumes "indexOfBuf buf needle off = Some i"
  shows "off \<le> i" and "i < length buf" and "take (length needle) (drop i buf) = needle"
    and "\<And>j. off \<le> j \<Longrightarrow> j < i \<Longrightarrow> take (length needle) (drop j buf) \<noteq> needle"
proof -
  from assms obtain k where k: "firstAt needle (drop off buf) = Some k" "i = off + k"
    by (auto simp add: indexOfBuf_def)
  note f = firstAt_Some [OF k(1)]
  show "off \<le> i" using k(2) by simp
  show "i < length buf" using f k(2) by auto
  show "take (length needle) (drop i buf) = needle" using f k(2) by (simp add: add.commute)
  fix j assume "off \<le> j" "j < i"
  then have "j - off < k" "j = off + (j - off)" using k(2) by simp_all
  then show "take (length needle) (drop j buf) \<noteq> needle"
    using f by (metis add.commute drop_drop)
qed

lemma indexOfBuf_end:
  assumes "indexOfBuf buf needle off = Some i"
  shows "i + length needle \<le> length buf"
proof -
  have "length (take (length needle) (drop i buf)) = length needle"
    using indexOfBuf_Some(3) [OF assms] by simp
  then have "min (length needle) (length buf - i) = length needle"
    by simp
  then show ?thesis using indexOfBuf_Some(2) [OF assms] by arith
qed

lemma demuxLoop_no_start:
  assumes "indexOfBuf buf jpegSOI 0 = None"
  shows "demuxLoop buf 0 [] = ([], buf, 0)"
proof (cases "0 < length buf")
  case True
  have "slice buf (int 0) (int (length buf)) = buf"
    using slice_to_end [of 0 buf] by simp
  then show ?thesis
    using True assms by (subst demuxLoop.simps) (simp only: if_True option.case)
next
  case False
  then show ?thesis
    by (subst demuxLoop.simps) simp
qed

lemma demuxLoop_no_end:
  assumes "indexOfBuf buf jpegSOI 0 = Some s" and "indexOfBuf buf jpegEOI (s + 2) = None"
  shows "demuxLoop buf 0 [] = ([], drop s buf, 0)"
proof -
  have s: "s < length buf" using indexOfBuf_Some(2) [OF assms(1)] .
  then have "0 < length buf" by (rule le_less_trans [OF le0])
  moreover have "slice buf (int s) (int (length buf)) = drop s buf"
    using s by (simp add: slice_to_end)
  ultimately show ?thesis
    using assms by (subst demuxLoop.simps) (simp only: if_True option.case)
qed

lemma demuxLoop_frame:
  assumes "c < length buf" and "indexOfBuf buf jpegSOI c = Some s"
    and "indexOfBuf buf jpegEOI (s + 2) = Some e"
  shows "demuxLoop buf c fr = demuxLoop buf (e + 2) (fr @ [take (e + 2 - s) (drop s buf)])"
proof -
  have "s + 2 \<le> e" using indexOfBuf_Some(1) [OF assms(3)] .
  moreover have "e + 2 \<le> length buf" using indexOfBuf_end [OF assms(3)] by (simp add: jpegEOI_def)
  ultimately have "slice buf (int s) (int (e + 2)) = take (e + 2 - s) (drop s buf)"
    using slice_nat [of s "e + 2" buf] by linarith
  then show ?thesis
    using assms by (subst demuxLoop.simps) (simp only: if_True option.case Let_def)
qed

subsection \<open>One chunk\<close>

lemma onData_from_loop:
  assumes "demuxLoop (buffer st @ chunk) 0 [] = ([], b, 0)"
  shows "onData st chunk = ([], st\<lparr>buffer := b\<rparr>)"
proof -
  have "slice b (int 0) (int (length b)) = b"
    using slice_to_end [of 0 b] by simp
  then have "(if 0 < length b then slice b (int 0) (int (length b)) else []) = b"
    by simp
  then show ?thesis
    using assms by (simp add: onData_def)
qed

lemma onData_no_start:
  assumes "indexOfBuf (buffer st @ chunk) jpegSOI 0 = None"
  shows "onData st chunk = ([], st\<lparr>buffer := buffer st @ chunk\<rparr>)"
  by (rule onData_from_loop [OF demuxLoop_no_start [OF assms]])

lemma onData_no_end:
  assumes "indexOfBuf (buffer st @ chunk) jpegSOI 0 = Some s"
    and "indexOfBuf (buffer st @ chunk) jpegEOI (s + 2) = None"
  shows "onData st chunk = ([], st\<lparr>buffer := drop s (buffer st @ chunk)\<rparr>)"
  by (rule onData_from_loop [OF demuxLoop_no_end [OF assms]])




text \<open>
  Claim C2. Two complete frames, of 4 and of 5 bytes, fed as one chunk come out as two
  frames. Split after the seventh byte, the first chunk completes the first frame and
  holds three bytes of the second: the loop leaves with \<open>startIndex = 4\<close> and the
  buffer already cut to these three bytes, the test \<open>startIndex < buffer.length\<close>
  after the loop fails, and the buffer is emptied. The second frame never comes out.
\<close>

theorem feed_split_loses_frame:
  "fst (feed initialCapture [[0xFF, 0xD8, 0xFF, 0xD9, 0xFF, 0xD8, 1, 0xFF, 0xD9]]) =
     [[0xFF, 0xD8, 0xFF, 0xD9], [0xFF, 0xD8, 1, 0xFF, 0xD9]] \<and>
   fst (feed initialCapture [[0xFF, 0xD8, 0xFF, 0xD9, 0xFF, 0xD8, 1], [0xFF, 0xD9]]) =
     [[0xFF, 0xD8, 0xFF, 0xD9]] \<and>
   onData initialCapture [0xFF, 0xD8, 0xFF, 0xD9, 0xFF, 0xD8, 1] =
     ([[0xFF, 0xD8, 0xFF, 0xD9]],
      \<lparr>buffer = [], frameCount = 1, currentFrameBuffer = Some [0xFF, 0xD8, 0xFF, 0xD9]\<rparr>)"
  by code_simp

subsection \<open>A stream of frames, one byte at a time\<close>

text \<open>
  A complete frame starts with the start marker, and the first end marker after it is
  its last two bytes. \<open>bytewise\<close> delivers a stream in chunks of one byte.
\<close>

definition wfFrame :: "buffer \<Rightarrow> bool" where
  "wfFrame f \<longleftrightarrow> take 2 f = jpegSOI \<and> indexOfBuf f jpegEOI 2 = Some (length f - 2)"

definition bytewise :: "buffer \<Rightarrow> buffer list" where
  "bytewise bs = map (\<lambda>x. [x]) bs"

lemma wfFrame_length: "wfFrame f \<Longrightarrow> 4 \<le> length f"
  using indexOfBuf_Some(1) [of f jpegEOI 2 "length f - 2"]
  by (simp add: wfFrame_def)

lemma indexOfBuf_start:
  assumes "take (length needle) buf = needle" and "buf \<noteq> []"
  shows "indexOfBuf buf needle 0 = Some 0"
  using assms by (cases buf) (simp_all add: indexOfBuf_def)

lemma indexOfBuf_short:
  assumes "length buf < off + length needle"
  shows "indexOfBuf buf needle off = None"
proof (cases "indexOfBuf buf needle off")
  case None
  then show ?thesis .
next
  case (Some i)
  then show ?thesis
    using indexOfBuf_end [OF Some] indexOfBuf_Some(1) [OF Some] assms by simp
qed

lemma indexOfBuf_prefix_None:
  assumes "indexOfBuf f needle off = Some e" and "n < e + length needle"
  shows "indexOfBuf (take n f) needle off = None"
proof (cases "indexOfBuf (take n f) needle off")
  case None
  then show ?thesis .
next
  case (Some i)
  note i = indexOfBuf_Some [OF Some] indexOfBuf_end [OF Some]
  have in_prefix: "i + length needle \<le> n" using i(5) by simp
  have "take (length needle) (drop i (take n f)) = take (length needle) (drop i f)"
    using in_prefix by (simp add: drop_take min_def)
  then have occ: "take (length needle) (drop i f) = needle" using i(3) by simp
  have "i < e" using in_prefix assms(2) by simp
  then have "take (length needle) (drop i f) \<noteq> needle"
    using indexOfBuf_Some(4) [OF assms(1), of i] i(1) by simp
  then show ?thesis using occ by simp
qed

lemma onData_byte:
  assumes wf: "wfFrame f" and k: "k < length f" and buf: "buffer st = take k f"
  shows "fst (onData st [f ! k]) = (if Suc k = length f then [f] else [])"
    and "buffer (snd (onData st [f ! k])) = (if Suc k = length f then [] else take (Suc k) f)"
proof -
  let ?p = "take (Suc k) f"
  have p: "buffer st @ [f ! k] = ?p"
    using k buf by (simp add: take_Suc_conv_app_nth)
  have len: "4 \<le> length f" using wf by (rule wfFrame_length)
  have eoi: "indexOfBuf f jpegEOI 2 = Some (length f - 2)" using wf by (simp add: wfFrame_def)
  have l2: "length jpegSOI = 2" "length jpegEOI = 2"
    by (simp_all add: jpegSOI_def jpegEOI_def)
  have soi_f: "take (length jpegSOI) f = jpegSOI"
    using wf by (simp only: l2 wfFrame_def)
  have both: "fst (onData st [f ! k]) = (if Suc k = length f then [f] else []) \<and>
        buffer (snd (onData st [f ! k])) = (if Suc k = length f then [] else take (Suc k) f)"
  proof (cases "Suc k = length f")
    case True
    then have pf: "?p = f" by simp
    have "f \<noteq> []" using len by auto
    then have soi: "indexOfBuf f jpegSOI 0 = Some 0"
      using soi_f by (intro indexOfBuf_start)
    have pos: "0 < length f" using len by (rule less_le_trans [OF zero_less_numeral])
    have eoi': "indexOfBuf f jpegEOI (0 + 2) = Some (length f - 2)" using eoi by (simp only: add_0)
    have "demuxLoop f 0 [] = demuxLoop f (length f - 2 + 2) ([] @ [take (length f - 2 + 2 - 0) (drop 0 f)])"
      by (rule demuxLoop_frame [OF pos soi eoi'])
    also have "\<dots> = demuxLoop f (length f) [f]"
    proof -
      have e2: "length f - 2 + 2 = length f" using len by arith
      have "take (length f - 2 + 2 - 0) (drop 0 f) = f" by (simp only: e2 diff_zero drop_0 take_all order_refl)
      then show ?thesis by (simp only: e2 append_Nil)
    qed
    also have "\<dots> = ([f], f, length f)"
      by (subst demuxLoop.simps) simp
    finally have "demuxLoop (buffer st @ [f ! k]) 0 [] = ([f], f, length f)"
      by (simp only: p pf)
    then show ?thesis using True by (simp add: onData_def)
  next
    case False
    then have short: "Suc k < length f" using k by simp
    have "indexOfBuf ?p jpegEOI 2 = None"
      using eoi short len by (intro indexOfBuf_prefix_None [of f jpegEOI 2 "length f - 2"]) (simp_all add: l2)
    then have noend: "indexOfBuf (buffer st @ [f ! k]) jpegEOI (0 + 2) = None"
      by (simp only: p add_0)
    show ?thesis
    proof (cases "k = 0")
      case True
      have "indexOfBuf (buffer st @ [f ! k]) jpegSOI 0 = None"
        using True buf by (intro indexOfBuf_short) (simp add: l2)
      from onData_no_start [OF this] show ?thesis
        using False by (simp add: p)
    next
      case k0: False
      have "take 2 ?p = take 2 f"
        using k0 by (simp add: min_def)
      then have "take (length jpegSOI) ?p = jpegSOI"
        using soi_f by (simp only: l2)
      moreover have "?p \<noteq> []"
        using short by auto
      ultimately have "indexOfBuf ?p jpegSOI 0 = Some 0"
        by (rule indexOfBuf_start)
      then have "indexOfBuf (buffer st @ [f ! k]) jpegSOI 0 = Some 0"
        by (simp only: p)
      from onData_no_end [OF this noend] show ?thesis
        using False by (simp add: p)
    qed
  qed
  show "fst (onData st [f ! k]) = (if Suc k = length f then [f] else [])" using both by simp
  show "buffer (snd (onData st [f ! k])) = (if Suc k = length f then [] else take (Suc k) f)"
    using both by simp
qed

lemma feed_append:
  "feed st (xs @ ys) = (fst (feed st xs) @ fst (feed (snd (feed st xs)) ys), snd (feed (snd (feed st xs)) ys))"
  by (induction xs arbitrary: st) (simp_all add: Let_def split: prod.splits)

lemma feed_single: "feed st [chunk] = onData st chunk"
  by (simp add: Let_def split: prod.splits)

lemma bytewise_append: "bytewise (xs @ ys) = bytewise xs @ bytewise ys"
  by (simp add: bytewise_def)

lemma feed_frame_prefix:
  assumes wf: "wfFrame f" and empty: "buffer st = []" and k: "k \<le> length f"
  shows "fst (feed st (bytewise (take k f))) = (if k = length f then [f] else []) \<and>
         buffer (snd (feed st (bytewise (take k f)))) = (if k = length f then [] else take k f)"
  using k
proof (induction k)
  case 0
  have "4 \<le> length f" using wf by (rule wfFrame_length)
  then show ?case using empty by (auto simp add: bytewise_def)
next
  case (Suc k)
  then have k: "k < length f" by simp
  let ?st = "snd (feed st (bytewise (take k f)))"
  have IH: "fst (feed st (bytewise (take k f))) = []" "buffer ?st = take k f"
    using Suc.IH k by simp_all
  have split: "bytewise (take (Suc k) f) = bytewise (take k f) @ [[f ! k]]"
    using k by (simp add: take_Suc_conv_app_nth bytewise_def)
  have "feed st (bytewise (take (Suc k) f)) =
          (fst (feed st (bytewise (take k f))) @ fst (onData ?st [f ! k]), snd (onData ?st [f ! k]))"
    by (simp only: split feed_append feed_single)
  then show ?case
    using onData_byte [OF wf k IH(2)] IH(1) by simp
qed


lemma feed_stream_frames:
  assumes "\<forall>f\<in>set frames. wfFrame f" and "buffer st = []"
  shows "fst (feed st (bytewise (concat frames))) = frames \<and>
         buffer (snd (feed st (bytewise (concat frames)))) = []"
  using assms
proof (induction frames arbitrary: st)
  case Nil
  then show ?case by (simp add: bytewise_def)
next
  case (Cons f frames)
  have wf: "wfFrame f" using Cons.prems(1) by simp
  let ?st = "snd (feed st (bytewise f))"
  have one: "fst (feed st (bytewise f)) = [f]" "buffer ?st = []"
    using feed_frame_prefix [OF wf Cons.prems(2), of "length f"] by simp_all
  have rest: "fst (feed ?st (bytewise (concat frames))) = frames"
    "buffer (snd (feed ?st (bytewise (concat frames)))) = []"
    using Cons.IH [OF _ one(2)] Cons.prems(1) by simp_all
  show ?case
    using one rest by (simp add: bytewise_append feed_append)
qed



section \<open>Frame multiplexer (spout-bridge.js, /mjpeg)\<close>

text \<open>
  One viewer of \<open>/mjpeg\<close>: the bytes handed to \<open>res.write\<close> so far, the flag
  \<open>res.writableEnded\<close>, the handler's own frame counter (its \<open>frameCount\<close>) and whether
  its interval timer is still set.
\<close>

record viewer =
  written :: buffer
  writableEnded :: bool
  streamed :: nat
  intervalSet :: bool

text \<open>The text of a length in a template string: its decimal digits.\<close>

fun decimal :: "nat \<Rightarrow> string" where
  "decimal n =
     (if n < 10 then [char_of (48 + n)]
      else decimal (n div 10) @ [char_of (48 + n mod 10)])"

definition crlf :: string where
  "crlf = [CHR 0x0D, CHR 0x0A]"

text \<open>
  \<open>sendFrame\<close>: when \<open>currentFrameBuffer\<close> is set and not empty, five writes: the
  boundary line, the content type, the content length and an empty line, the frame,
  and a line end. Otherwise nothing.
\<close>

definition sendFrame :: "buffer option \<Rightarrow> viewer \<Rightarrow> viewer" where
  "sendFrame current v =
     (case current of
        None \<Rightarrow> v
      | Some frame \<Rightarrow>
          if length frame > 0 then
            v\<lparr>streamed := streamed v + 1,
              written := written v
                @ utf8_bytes (''--frame'' @ crlf)
                @ utf8_bytes (''Content-Type: image/jpeg'' @ crlf)
                @ utf8_bytes (''Content-Length: '' @ decimal (length frame) @ crlf @ crlf)
                @ frame
                @ utf8_bytes crlf\<rparr>
          else v)"

text \<open>
  The callback of \<open>setInterval(..., 33)\<close>: send while the response has not been ended,
  clear the interval once it has.
\<close>

definition tick :: "buffer option \<Rightarrow> viewer \<Rightarrow> viewer" where
  "tick current v =
     (if \<not> writableEnded v then sendFrame current v
      else v\<lparr>intervalSet := False\<rparr>)"

text \<open>The number a decimal text stands for.\<close>

definition decimalValue :: "string \<Rightarrow> nat" where
  "decimalValue s = foldl (\<lambda>acc c. 10 * acc + (of_char c - 48)) 0 s"

subsection \<open>What a tick writes\<close>

declare decimal.simps [simp del]


lemma digit_value: "d < 10 \<Longrightarrow> of_char (char_of (48 + d)) - 48 = (d::nat)"
  by (simp add: of_char_of)

lemma decimalValue_snoc: "decimalValue (s @ [c]) = 10 * decimalValue s + (of_char c - 48)"
  by (simp add: decimalValue_def)

lemma decimalValue_decimal: "decimalValue (decimal n) = n"
proof (induction n rule: decimal.induct)
  case (1 n)
  show ?case
  proof (cases "n < 10")
    case True
    then show ?thesis
      by (subst decimal.simps) (simp add: decimalValue_def digit_value)
  next
    case False
    have "n mod 10 < 10" by simp
    then have "decimalValue (decimal (n div 10) @ [char_of (48 + n mod 10)]) = 10 * (n div 10) + n mod 10"
      using "1.IH" [OF False] by (simp only: decimalValue_snoc digit_value)
    then show ?thesis
      using False by (subst decimal.simps) simp
  qed
qed

lemma demuxLoop_frames_nonempty:
  "\<forall>f\<in>set fr. f \<noteq> [] \<Longrightarrow> \<forall>f\<in>set (fst (demuxLoop buf c fr)). f \<noteq> []"
proof (induction buf c fr rule: demuxLoop.induct)
  case (1 buf startIndex frames)
  show ?case
  proof (cases "startIndex < length buf")
    case False
    then show ?thesis using "1.prems" by (subst demuxLoop.simps) simp
  next
    case True
    show ?thesis
    proof (cases "indexOfBuf buf jpegSOI startIndex")
      case None
      then show ?thesis using True "1.prems" by (subst demuxLoop.simps) simp
    next
      case (Some s)
      show ?thesis
      proof (cases "indexOfBuf buf jpegEOI (s + 2)")
        case None
        then show ?thesis using True Some "1.prems" by (subst demuxLoop.simps) simp
      next
        case e: (Some e)
        have "s + 2 \<le> e" using indexOfBuf_Some(1) [OF e] .
        moreover have "e + 2 \<le> length buf" using indexOfBuf_end [OF e] by (simp add: jpegEOI_def)
        ultimately have "take (e + 2 - s) (drop s buf) \<noteq> []" by auto
        then have "\<forall>f\<in>set (frames @ [take (e + 2 - s) (drop s buf)]). f \<noteq> []"
          using "1.prems" by simp
        moreover have sl: "slice buf (int s) (int (e + 2)) = take (e + 2 - s) (drop s buf)"
          using slice_nat [of s "e + 2" buf] \<open>s + 2 \<le> e\<close> \<open>e + 2 \<le> length buf\<close> by linarith
        ultimately have "\<forall>f\<in>set (fst (demuxLoop buf (e + 2) (frames @ [slice buf (int s) (int (e + 2))]))). f \<noteq> []"
          using "1.IH" [OF True Some e refl refl] by (simp only: sl)
        then show ?thesis
          using demuxLoop_frame [OF True Some e, of frames] by (simp only: sl)
      qed
    qed
  qed
qed

lemma onData_frames_nonempty: "\<forall>f\<in>set (fst (onData st chunk)). f \<noteq> []"
  using demuxLoop_frames_nonempty [of "[]" "buffer st @ chunk" 0]
  by (simp add: onData_def split: prod.splits)

lemma onData_current:
  "currentFrameBuffer (snd (onData st chunk)) =
     (if fst (onData st chunk) = [] then currentFrameBuffer st else Some (last (fst (onData st chunk))))"
  by (simp add: onData_def split: prod.splits)

lemma feed_frames_nonempty: "\<forall>f\<in>set (fst (feed st chunks)). f \<noteq> []"
proof (induction chunks arbitrary: st)
  case Nil
  then show ?case by simp
next
  case (Cons chunk chunks)
  show ?case
    using onData_frames_nonempty [of st chunk] Cons.IH [of "snd (onData st chunk)"]
    by (auto simp add: Let_def split: prod.splits)
qed

lemma feed_current:
  "currentFrameBuffer (snd (feed st chunks)) =
     (if fst (feed st chunks) = [] then currentFrameBuffer st else Some (last (fst (feed st chunks))))"
proof (induction chunks arbitrary: st)
  case Nil
  then show ?case by simp
next
  case (Cons chunk chunks)
  show ?case
    using onData_current [of st chunk] Cons.IH [of "snd (onData st chunk)"]
    by (auto simp add: Let_def split: prod.splits)
qed

text \<open>
  Claim C7. On a tick of a viewer whose response has not been ended: if no frame has
  ever been demuxed the tick writes nothing and changes nothing; if at least one frame
  has been demuxed the tick appends one multipart segment that carries the most recent
  frame, and the length it declares is the decimal text of that frame's byte count.
\<close>

theorem tick_writes_latest_frame:
  assumes "\<not> writableEnded v"
  shows "(fst (feed initialCapture chunks) = [] \<longrightarrow>
            tick (currentFrameBuffer (snd (feed initialCapture chunks))) v = v) \<and>
         (fst (feed initialCapture chunks) \<noteq> [] \<longrightarrow>
            written (tick (currentFrameBuffer (snd (feed initialCapture chunks))) v) =
              written v
                @ utf8_bytes (''--frame'' @ crlf)
                @ utf8_bytes (''Content-Type: image/jpeg'' @ crlf)
                @ utf8_bytes (''Content-Length: ''
                    @ decimal (length (last (fst (feed initialCapture chunks)))) @ crlf @ crlf)
                @ last (fst (feed initialCapture chunks))
                @ utf8_bytes crlf \<and>
            decimalValue (decimal (length (last (fst (feed initialCapture chunks))))) =
              length (last (fst (feed initialCapture chunks))))"
proof (cases "fst (feed initialCapture chunks) = []")
  case True
  then have "currentFrameBuffer (snd (feed initialCapture chunks)) = None"
    using feed_current [of initialCapture chunks] by (simp add: initialCapture_def)
  then show ?thesis using True assms by (simp add: tick_def sendFrame_def)
next
  case False
  then have cur: "currentFrameBuffer (snd (feed initialCapture chunks)) =
      Some (last (fst (feed initialCapture chunks)))"
    using feed_current [of initialCapture chunks] by simp
  have "last (fst (feed initialCapture chunks)) \<in> set (fst (feed initialCapture chunks))"
    using False by (rule last_in_set)
  then have "last (fst (feed initialCapture chunks)) \<noteq> []"
    using feed_frames_nonempty [of initialCapture chunks] by blast
  then show ?thesis
    using False assms cur by (simp add: tick_def sendFrame_def decimalValue_decimal)
qed


theorem tick_writes_latest_frame_witness:
  "\<not> writableEnded \<lparr>written = [], writableEnded = False, streamed = 0, intervalSet = True\<rparr> \<and>
   fst (feed initialCapture [[1, 2]]) = [] \<and>
   tick (currentFrameBuffer (snd (feed initialCapture [[1, 2]])))
     \<lparr>written = [], writableEnded = False, streamed = 0, intervalSet = True\<rparr> =
     \<lparr>written = [], writableEnded = False, streamed = 0, intervalSet = True\<rparr> \<and>
   fst (feed initialCapture [[0xFF, 0xD8, 0xFF, 0xD9], [0xFF, 0xD8, 1, 0xFF, 0xD9]]) =
     [[0xFF, 0xD8, 0xFF, 0xD9], [0xFF, 0xD8, 1, 0xFF, 0xD9]] \<and>
   written (tick (currentFrameBuffer (snd (feed initialCapture
       [[0xFF, 0xD8, 0xFF, 0xD9], [0xFF, 0xD8, 1, 0xFF, 0xD9]])))
     \<lparr>written = [], writableEnded = False, streamed = 0, intervalSet = True\<rparr>) =
     utf8_bytes (''--frame'' @ crlf) @ utf8_bytes (''Content-Type: image/jpeg'' @ crlf)
       @ utf8_bytes (''Content-Length: 5'' @ crlf @ crlf)
       @ [0xFF, 0xD8, 1, 0xFF, 0xD9] @ utf8_bytes crlf"
proof -
  let ?v = "\<lparr>written = [], writableEnded = False, streamed = 0, intervalSet = True\<rparr>"
  let ?none = "[[1, 2]] :: buffer list"
  let ?two = "[[0xFF, 0xD8, 0xFF, 0xD9], [0xFF, 0xD8, 1, 0xFF, 0xD9]] :: buffer list"
  have v: "\<not> writableEnded ?v" by simp
  have a: "fst (feed initialCapture ?none) = []"
    by code_simp
  have b: "fst (feed initialCapture ?two) = ?two"
    by code_simp
  have ne: "fst (feed initialCapture ?two) \<noteq> []"
    unfolding b by simp
  note quiet = tick_writes_latest_frame [OF v, of ?none, THEN conjunct1, THEN mp, OF a]
  note sent = tick_writes_latest_frame [OF v, of ?two, THEN conjunct2, THEN mp, OF ne,
      THEN conjunct1]
  have bytes: "written ?v
        @ utf8_bytes (''--frame'' @ crlf)
        @ utf8_bytes (''Content-Type: image/jpeg'' @ crlf)
        @ utf8_bytes (''Content-Length: ''
            @ decimal (length (last (fst (feed initialCapture ?two)))) @ crlf @ crlf)
        @ last (fst (feed initialCapture ?two))
        @ utf8_bytes crlf =
      utf8_bytes (''--frame'' @ crlf) @ utf8_bytes (''Content-Type: image/jpeg'' @ crlf)
       @ utf8_bytes (''Content-Length: 5'' @ crlf @ crlf)
       @ [0xFF, 0xD8, 1, 0xFF, 0xD9] @ utf8_bytes crlf"
    by code_simp
  from v a quiet b sent [THEN trans, OF bytes] show ?thesis
    by (intro conjI)
qed

section \<open>Camera state and the inbound zoom message (server.js)\<close>

text \<open>
  A JavaScript number as the comparisons of the zoom clamp see it: NaN, the two
  infinities, or a finite value (the sign of zero is not modelled).
\<close>

datatype jsnum = NaN | NegInf | Fin real | PosInf

text \<open>\<open>a < b\<close> on numbers: false whenever an operand is NaN.\<close>

fun js_lt :: "jsnum \<Rightarrow> jsnum \<Rightarrow> bool" where
  "js_lt NaN b = False"
| "js_lt a NaN = False"
| "js_lt PosInf b = False"
| "js_lt a NegInf = False"
| "js_lt NegInf b = True"
| "js_lt a PosInf = True"
| "js_lt (Fin a) (Fin b) = (a < b)"

text \<open>\<open>Math.min\<close> and \<open>Math.max\<close> of two numbers: NaN when an operand is NaN.\<close>

fun Math_min :: "jsnum \<Rightarrow> jsnum \<Rightarrow> jsnum" where
  "Math_min NaN b = NaN"
| "Math_min a NaN = NaN"
| "Math_min a b = (if js_lt b a then b else a)"

fun Math_max :: "jsnum \<Rightarrow> jsnum \<Rightarrow> jsnum" where
  "Math_max NaN b = NaN"
| "Math_max a NaN = NaN"
| "Math_max a b = (if js_lt a b then b else a)"

text \<open>
  The number that \<open>readFloatBE\<close> returns for a binary32 pattern: sign bit, eight
  exponent bits, 23 fraction bits.
\<close>

definition f32_value :: "32 word \<Rightarrow> jsnum" where
  "f32_value w =
     (let negative = bit w 31;
          e = unat (take_bit 8 (drop_bit 23 w));
          m = unat (take_bit 23 w)
      in if e = 255 then (if m = 0 then (if negative then NegInf else PosInf) else NaN)
         else
           let magnitude = (if e = 0 then real m / 2 ^ 149
                            else real (2 ^ 23 + m) * 2 ^ e / 2 ^ 150)
           in Fin (if negative then - magnitude else magnitude))"

text \<open>
  \<open>ToNumber\<close>, which \<open>Math.min\<close> applies to its arguments, for the numbers the decoder
  returns. The conversion of a string or of a Buffer goes through number parsing and is
  not modelled (\<open>None\<close>).
\<close>

fun ToNumber :: "jsval \<Rightarrow> jsnum option" where
  "ToNumber (Float32 w) = Some (f32_value w)"
| "ToNumber (Int32 w) = Some (Fin (real_of_int (sint w)))"
| "ToNumber a = None"

text \<open>
  The zoom field of the camera state. The pose fields are left out: no statement on
  the zoom assigns or reads them.
\<close>

record camera =
  zoom :: jsnum

text \<open>
  The \<open>message\<close> handler of \<open>oscReceiver\<close>, as far as \<open>state.zoom\<close> goes. A datagram
  that does not parse and an exception (caught by the handler's \<open>try\<close>) leave the state
  as it is; so does the Pose branch, which comes first. \<open>None\<close> stands for a zoom
  argument whose conversion is not modelled.
\<close>

definition onOscMessage :: "camera \<Rightarrow> buffer \<Rightarrow> camera option" where
  "onOscMessage state msg =
     (case parseOscMessage msg of
        Inl e \<Rightarrow> Some state
      | Inr None \<Rightarrow> Some state
      | Inr (Some parsed) \<Rightarrow>
          if address parsed = ''/usercamera/Pose'' \<and> length (args parsed) \<ge> 6
          then Some state
          else if address parsed = ''/usercamera/Zoom'' \<and> length (args parsed) \<ge> 1
          then map_option
                 (\<lambda>n. state\<lparr>zoom := Math_max (Fin 20) (Math_min (Fin 150) n)\<rparr>)
                 (ToNumber (args parsed ! 0))
          else Some state)"

text \<open>The range the comments of the source give for the zoom: 20 to 150.\<close>

fun inZoomRange :: "jsnum \<Rightarrow> bool" where
  "inZoomRange (Fin r) = (20 \<le> r \<and> r \<le> 150)"
| "inZoomRange a = False"

subsection \<open>The zoom clamp\<close>

text \<open>
  The clamp of the inbound zoom message holds for every number but NaN, and NaN is the
  only value with which this handler leaves the range.
\<close>

lemma clamp_in_range: "n \<noteq> NaN \<Longrightarrow> inZoomRange (Math_max (Fin 20) (Math_min (Fin 150) n))"
  by (cases n) auto

lemma onOscMessage_in_range:
  assumes "inZoomRange (zoom state)" and "onOscMessage state msg = Some state'"
    and "zoom state' \<noteq> NaN"
  shows "inZoomRange (zoom state')"
proof -
  have "zoom state' = zoom state \<or> (\<exists>n. zoom state' = Math_max (Fin 20) (Math_min (Fin 150) n))"
    using assms(2)
    by (auto simp add: onOscMessage_def split: sum.splits option.splits if_splits)
  then show ?thesis
  proof
    assume "zoom state' = zoom state"
    then show ?thesis using assms(1) by simp
  next
    assume "\<exists>n. zoom state' = Math_max (Fin 20) (Math_min (Fin 150) n)"
    then obtain n where n: "zoom state' = Math_max (Fin 20) (Math_min (Fin 150) n)" by blast
    have "n \<noteq> NaN" using n assms(3) by (cases n) auto
    then show ?thesis using clamp_in_range n by simp
  qed
qed

text \<open>
  Claim C3. The claim says that the zoom is within its range after every mutation, for
  any JavaScript number. The datagram below is the message \<open>/usercamera/Zoom\<close> with
  one float argument whose pattern \<open>7FC00000\<close> is NaN. \<open>Math.min(150, NaN)\<close> and
  \<open>Math.max(20, NaN)\<close> are NaN, so the handler stores NaN in \<open>state.zoom\<close>, which is
  not a value between 20 and 150.
\<close>

theorem zoom_nan_passes_clamp:
  "parseOscMessage [47, 117, 115, 101, 114, 99, 97, 109, 101, 114, 97, 47, 90, 111, 111, 109,
      0, 0, 0, 0, 44, 102, 0, 0, 0x7F, 0xC0, 0, 0] =
     Inr (Some \<lparr>address = ''/usercamera/Zoom'', types = ''f'', args = [Float32 0x7FC00000]\<rparr>) \<and>
   f32_value 0x7FC00000 = NaN \<and>
   onOscMessage \<lparr>zoom = Fin 45\<rparr>
     [47, 117, 115, 101, 114, 99, 97, 109, 101, 114, 97, 47, 90, 111, 111, 109,
      0, 0, 0, 0, 44, 102, 0, 0, 0x7F, 0xC0, 0, 0] = Some \<lparr>zoom = NaN\<rparr> \<and>
   \<not> inZoomRange NaN"
proof -
  have p: "parseOscMessage [47, 117, 115, 101, 114, 99, 97, 109, 101, 114, 97, 47, 90, 111, 111, 109,
      0, 0, 0, 0, 44, 102, 0, 0, 0x7F, 0xC0, 0, 0] =
     Inr (Some \<lparr>address = ''/usercamera/Zoom'', types = ''f'', args = [Float32 0x7FC00000]\<rparr>)"
    by code_simp
  have f: "f32_value 0x7FC00000 = NaN"
    by (simp add: f32_value_def)
  have h: "onOscMessage \<lparr>zoom = Fin 45\<rparr>
     [47, 117, 115, 101, 114, 99, 97, 109, 101, 114, 97, 47, 90, 111, 111, 109,
      0, 0, 0, 0, 44, 102, 0, 0, 0x7F, 0xC0, 0, 0] = Some \<lparr>zoom = NaN\<rparr>"
    unfolding onOscMessage_def p by (simp add: f)
  show ?thesis
    using p f h by simp
qed

section \<open>Capture source manager (spout-bridge.js)\<close>













subsection \<open>What a start commits to\<close>








end
